theory Spec2Isabelle
  imports Main
begin

section \<open>The worker's surroundings\<close>

text \<open>
  \<^verbatim>\<open>BlockerThread\<close> of \<^verbatim>\<open>src/main.py\<close> talks to three things it does not own:
  the wall clock (\<^verbatim>\<open>datetime.now()\<close>, \<^verbatim>\<open>time.sleep\<close>), the process table behind
  \<^verbatim>\<open>psutil\<close>, and the \<^verbatim>\<open>running\<close> flag that the consumer clears from another thread.
  They are inputs of the model. Time is counted in microseconds, the resolution of
  \<^verbatim>\<open>datetime\<close>; the floats that \<^verbatim>\<open>total_seconds()\<close> returns are exact multiples of a
  microsecond and are kept as such.
\<close>

datatype psutil_error = NoSuchProcess | AccessDenied | TimeoutExpired

datatype call = Exe | Name | Terminate | Wait

text \<open>
  What one method call on a \<^verbatim>\<open>psutil.Process\<close> does: it takes some microseconds and
  then returns a value (the string of \<^verbatim>\<open>exe()\<close> and \<^verbatim>\<open>name()\<close>; the value of
  \<^verbatim>\<open>terminate()\<close> and \<^verbatim>\<open>wait()\<close> is ignored by the caller) or raises.
\<close>

datatype answer = Returns nat string | Raises nat psutil_error

text \<open>
  A process handle as \<^verbatim>\<open>psutil.process_iter\<close> yields it. Its answer to a call may
  depend on the calls made on the handle before, oldest first (a name read after the
  process was terminated may raise).
\<close>

record process =
  pid :: nat
  respond :: "call list \<Rightarrow> call \<Rightarrow> answer"

record environment =
  stop_at :: "int option"
  processes :: "int \<Rightarrow> process list"
  oversleep :: "int \<Rightarrow> nat"
  abspath :: "string \<Rightarrow> string"
  lower :: "string \<Rightarrow> string"

text \<open>
  \<open>stop_at\<close> is the instant at which \<^verbatim>\<open>stop()\<close> executes \<^verbatim>\<open>self.running = False\<close>
  (\<open>None\<close>: nobody stops the worker); \<open>processes t\<close> is what \<^verbatim>\<open>process_iter\<close> yields
  at instant \<open>t\<close>; \<open>oversleep t\<close> is by how much a \<^verbatim>\<open>time.sleep\<close> begun at \<open>t\<close> overshoots;
  \<open>abspath\<close> and \<open>lower\<close> are \<^verbatim>\<open>os.path.abspath\<close> and \<^verbatim>\<open>str.lower\<close>.
\<close>

section \<open>What the worker does, as a timed trace\<close>

datatype message =
    ScheduledAt int
  | IncorrectTimeFormat
  | StartedBlocking int
  | TerminatedProcess nat string
  | FailedToTerminate nat psutil_error
  | FinishedBlocking
  | SessionCompleted

datatype event =
    Info message
  | Warning message
  | Error message
  | Notify message
  | UpdateStats int int int
  | Sleep nat
  | ProcessIter
  | PsCall nat call

record blocker_thread =
  app_paths :: "string list"
  process_names :: "string list"
  duration_minutes :: int
  start_time :: "string option"
  notify :: bool
  check_frequency :: nat

text \<open>
  \<^verbatim>\<open>__init__\<close>: the paths are made absolute and the names lower-cased once, here.
  An argument left \<^verbatim>\<open>None\<close> is the empty list.
\<close>

definition init ::
  "environment \<Rightarrow> string list \<Rightarrow> string list \<Rightarrow> int \<Rightarrow> string option \<Rightarrow> bool \<Rightarrow> nat
    \<Rightarrow> blocker_thread" where
  "init env paths names duration start ntfy frequency =
     \<lparr>app_paths = map (abspath env) paths,
      process_names = map (lower env) names,
      duration_minutes = duration,
      start_time = start,
      notify = ntfy,
      check_frequency = frequency\<rparr>"

text \<open>
  The worker's own variables, with the clock: \<open>attempts\<close> is \<^verbatim>\<open>self.attempts\<close>,
  \<open>blocked_apps\<close> the local of the blocking loop, \<open>calls\<close> the calls made so far on the
  handle at hand, \<open>trace\<close> every effect so far with the instant it began.
\<close>

record state =
  clock :: int
  attempts :: int
  blocked_apps :: int
  calls :: "call list"
  trace :: "(int \<times> event) list"

definition initial :: "int \<Rightarrow> state" where
  "initial t = \<lparr>clock = t, attempts = 0, blocked_apps = 0, calls = [], trace = []\<rparr>"

definition record_event :: "event \<Rightarrow> state \<Rightarrow> state" where
  "record_event ev s = s\<lparr>trace := trace s @ [(clock s, ev)]\<rparr>"

definition running :: "environment \<Rightarrow> state \<Rightarrow> bool" where
  "running env s = (case stop_at env of None \<Rightarrow> True | Some t \<Rightarrow> clock s < t)"

definition sleep :: "environment \<Rightarrow> nat \<Rightarrow> state \<Rightarrow> state" where
  "sleep env n s =
     (record_event (Sleep n) s)
       \<lparr>clock := clock s + int n * 1000000 + int (oversleep env (clock s))\<rparr>"

definition send_notification :: "message \<Rightarrow> state \<Rightarrow> state" where
  "send_notification m s = record_event (Notify m) s"

text \<open>\<^verbatim>\<open>int(td.total_seconds())\<close>: whole seconds, rounded towards zero.\<close>

definition int_seconds :: "int \<Rightarrow> int" where
  "int_seconds us = (if 0 \<le> us then us div 1000000 else - ((- us) div 1000000))"

section \<open>One process of a sweep\<close>

text \<open>
  The body of the \<^verbatim>\<open>try\<close> is a sequence of steps, each of which may raise; what was
  done before the raise stays done.
\<close>

type_synonym 'a attempt = "state \<Rightarrow> (psutil_error + 'a) \<times> state"

definition succeed :: "'a \<Rightarrow> 'a attempt" where
  "succeed v s = (Inr v, s)"

definition and_then :: "'a attempt \<Rightarrow> ('a \<Rightarrow> 'b attempt) \<Rightarrow> 'b attempt" where
  "and_then m f s = (case m s of (Inl e, s') \<Rightarrow> (Inl e, s') | (Inr v, s') \<Rightarrow> f v s')"

definition perform :: "(state \<Rightarrow> state) \<Rightarrow> unit attempt" where
  "perform f s = (Inr (), f s)"

definition ps_call :: "process \<Rightarrow> call \<Rightarrow> string attempt" where
  "ps_call proc c s =
     (let s' = (record_event (PsCall (pid proc) c) s)\<lparr>calls := calls s @ [c]\<rparr> in
      case respond proc (calls s) c of
        Returns d v \<Rightarrow> (Inr v, s'\<lparr>clock := clock s + int d\<rparr>)
      | Raises d e \<Rightarrow> (Inl e, s'\<lparr>clock := clock s + int d\<rparr>))"

definition count_block :: "state \<Rightarrow> state" where
  "count_block s = s\<lparr>blocked_apps := blocked_apps s + 1, attempts := attempts s + 1\<rparr>"

text \<open>
  Lines 115 to 125, \<^verbatim>\<open># Check by Path\<close>. \<^verbatim>\<open>proc.exe()\<close> is called once in the
  condition (only when \<^verbatim>\<open>self.app_paths\<close> is not empty) and once more for
  \<^verbatim>\<open>abspath\<close>.
\<close>

definition check_by_path :: "environment \<Rightarrow> blocker_thread \<Rightarrow> process \<Rightarrow> unit attempt" where
  "check_by_path env self proc =
     and_then
       (if app_paths self \<noteq> [] then and_then (ps_call proc Exe) (\<lambda>e. succeed (e \<noteq> []))
        else succeed False)
       (\<lambda>has_exe.
          if has_exe then
            and_then (ps_call proc Exe) (\<lambda>e.
              if abspath env e \<in> set (app_paths self) then
                and_then (ps_call proc Name) (\<lambda>proc_name.
                and_then (ps_call proc Terminate) (\<lambda>_.
                and_then (ps_call proc Wait) (\<lambda>_.
                and_then (perform (record_event (Info (TerminatedProcess (pid proc) proc_name))))
                  (\<lambda>_.
                and_then (perform count_block) (\<lambda>_.
                  if notify self
                  then perform (send_notification (TerminatedProcess (pid proc) proc_name))
                  else succeed ())))))
              else succeed ())
          else succeed ())"

text \<open>
  Lines 128 to 137, \<^verbatim>\<open># Check by Process Name\<close>. The log line and the notification
  each read \<^verbatim>\<open>proc.name()\<close> again.
\<close>

definition check_by_name :: "environment \<Rightarrow> blocker_thread \<Rightarrow> process \<Rightarrow> unit attempt" where
  "check_by_name env self proc =
     (if process_names self \<noteq> [] then
        and_then (ps_call proc Name) (\<lambda>n.
          if lower env n \<in> set (process_names self) then
            and_then (ps_call proc Terminate) (\<lambda>_.
            and_then (ps_call proc Wait) (\<lambda>_.
            and_then (ps_call proc Name) (\<lambda>logged.
            and_then (perform (record_event (Info (TerminatedProcess (pid proc) logged))))
              (\<lambda>_.
            and_then (perform count_block) (\<lambda>_.
              if notify self then
                and_then (ps_call proc Name) (\<lambda>told.
                  perform (send_notification (TerminatedProcess (pid proc) told)))
              else succeed ())))))
          else succeed ())
      else succeed ())"

text \<open>
  Lines 113 to 139: the \<^verbatim>\<open>try\<close> around both checks, and its \<^verbatim>\<open>except\<close>, which
  catches all three errors and logs a warning.
\<close>

definition check_process :: "environment \<Rightarrow> blocker_thread \<Rightarrow> process \<Rightarrow> state \<Rightarrow> state" where
  "check_process env self proc s =
     (case and_then (check_by_path env self proc) (\<lambda>_. check_by_name env self proc)
             (s\<lparr>calls := []\<rparr>) of
        (Inr _, s') \<Rightarrow> s'
      | (Inl e, s') \<Rightarrow> record_event (Warning (FailedToTerminate (pid proc) e)) s')"

text \<open>Lines 111 to 139: one pass over the process table.\<close>

definition sweep :: "environment \<Rightarrow> blocker_thread \<Rightarrow> state \<Rightarrow> state" where
  "sweep env self s =
     fold (check_process env self) (processes env (clock s))
       (record_event ProcessIter (s\<lparr>blocked_apps := 0\<rparr>))"

section \<open>The two loops and \<^verbatim>\<open>run\<close>\<close>

text \<open>
  Lines 110 to 143. The loop runs on the wall clock, so the model gives it fuel: the
  first component of the result says whether the loop was left (\<open>True\<close>) or the fuel
  ran out in the middle (\<open>False\<close>).
\<close>

fun blocking_loop ::
  "nat \<Rightarrow> environment \<Rightarrow> blocker_thread \<Rightarrow> int \<Rightarrow> state \<Rightarrow> bool \<times> state" where
  "blocking_loop 0 env self end_time s = (\<not> (clock s < end_time \<and> running env s), s)"
| "blocking_loop (Suc fuel) env self end_time s =
     (if clock s < end_time \<and> running env s then
        let s1 = sweep env self s;
            time_remaining = int_seconds (end_time - clock s1);
            s2 = record_event (UpdateStats time_remaining (blocked_apps s1) (attempts s1)) s1
        in blocking_loop fuel env self end_time (sleep env (check_frequency self) s2)
      else (True, s))"

text \<open>
  Lines 93 to 97, the countdown. \<^verbatim>\<open>wait_seconds\<close> is a local that the loop
  decrements; the signal's first argument is declared \<^verbatim>\<open>int\<close>.
\<close>

function countdown :: "environment \<Rightarrow> int \<Rightarrow> state \<Rightarrow> state" where
  "countdown env wait_seconds s =
     (if wait_seconds > 0 \<and> running env s then
        countdown env (wait_seconds - 1000000)
          (sleep env 1 (record_event (UpdateStats (int_seconds wait_seconds) 0 (attempts s)) s))
      else s)"
  by pat_completeness auto
termination
  by (relation "measure (\<lambda>(env, w, s). nat w)") auto

declare countdown.simps [simp del]

text \<open>
  \<^verbatim>\<open>datetime.strptime(text, "%H:%M")\<close>: one or two digits, a colon, one or two
  digits, nothing else; hours below 24, minutes below 60. \<open>None\<close> is \<^verbatim>\<open>ValueError\<close>.
  Strings are byte strings here and the digits are the ASCII ones, as in the text that the
  consumer's time field produces.
\<close>

definition digit_value :: "char \<Rightarrow> nat option" where
  "digit_value c =
     (let n = (of_char c :: nat) in if 48 \<le> n \<and> n \<le> 57 then Some (n - 48) else None)"

fun field_value :: "string \<Rightarrow> nat option" where
  "field_value [a] = digit_value a"
| "field_value [a, b] =
     (case (digit_value a, digit_value b) of
        (Some x, Some y) \<Rightarrow> Some (10 * x + y)
      | _ \<Rightarrow> None)"
| "field_value _ = None"

definition strptime_HM :: "string \<Rightarrow> (nat \<times> nat) option" where
  "strptime_HM txt =
     (case (field_value (takeWhile (\<lambda>c. c \<noteq> CHR '':'') txt),
            dropWhile (\<lambda>c. c \<noteq> CHR '':'') txt) of
        (Some h, c # rest) \<Rightarrow>
          (case field_value rest of
             Some m \<Rightarrow> if h < 24 \<and> m < 60 then Some (h, m) else None
           | None \<Rightarrow> None)
      | _ \<Rightarrow> None)"

definition day :: int where
  "day = 86400000000"

text \<open>
  Lines 78 to 102. The start is today's date at the given hour and minute, or
  tomorrow's when that is already past. \<open>Inl\<close> is the \<^verbatim>\<open>return\<close> of the
  \<^verbatim>\<open>except ValueError\<close>.
\<close>

definition wait_for_start ::
  "environment \<Rightarrow> blocker_thread \<Rightarrow> string \<Rightarrow> state \<Rightarrow> state + state" where
  "wait_for_start env self txt s =
     (case strptime_HM txt of
        None \<Rightarrow>
          (let s1 = record_event (Error IncorrectTimeFormat) s
           in Inl (if notify self then send_notification IncorrectTimeFormat s1 else s1))
      | Some (h, m) \<Rightarrow>
          (let now = clock s;
               today = now - now mod day + (int h * 3600 + int m * 60) * 1000000;
               start_datetime = (if today < now then today + day else today);
               wait_seconds = start_datetime - now;
               s1 = record_event (Info (ScheduledAt start_datetime)) s;
               s2 = (if notify self then send_notification (ScheduledAt start_datetime) s1
                     else s1)
           in Inr (countdown env wait_seconds s2)))"

text \<open>Lines 104 to 148, from \<^verbatim>\<open>end_time\<close> on.\<close>

definition block :: "nat \<Rightarrow> environment \<Rightarrow> blocker_thread \<Rightarrow> state \<Rightarrow> bool \<times> state" where
  "block fuel env self s =
     (let end_time = clock s + duration_minutes self * 60000000;
          s1 = record_event (Info (StartedBlocking (duration_minutes self))) s;
          s2 = (if notify self then send_notification (StartedBlocking (duration_minutes self)) s1
                else s1)
      in case blocking_loop fuel env self end_time s2 of
           (False, s3) \<Rightarrow> (False, s3)
         | (True, s3) \<Rightarrow>
             (True,
              if running env s3 then
                (let s4 = record_event (Info FinishedBlocking) s3
                 in if notify self then send_notification FinishedBlocking s4 else s4)
              else s3))"

text \<open>
  \<^verbatim>\<open>run\<close>, lines 75 to 148. \<^verbatim>\<open>if self.start_time:\<close> is false for \<^verbatim>\<open>None\<close> and for
  the empty string.
\<close>

definition run :: "nat \<Rightarrow> environment \<Rightarrow> blocker_thread \<Rightarrow> state \<Rightarrow> bool \<times> state" where
  "run fuel env self s =
     (case start_time self of
        None \<Rightarrow> block fuel env self s
      | Some txt \<Rightarrow>
          if txt = [] then block fuel env self s
          else (case wait_for_start env self txt s of
                  Inl s' \<Rightarrow> (True, s')
                | Inr s' \<Rightarrow> block fuel env self s'))"

section \<open>The consumer's slot\<close>

text \<open>
  Lines 408 to 411 of \<^verbatim>\<open>AppBlockerGUI.blocking_finished\<close>, connected to the thread's
  \<^verbatim>\<open>finished\<close> signal (line 362). Qt emits that signal, which carries no argument,
  whenever \<^verbatim>\<open>run\<close> returns.
\<close>

definition blocking_finished :: "blocker_thread \<Rightarrow> state \<Rightarrow> state" where
  "blocking_finished self s =
     (let s1 = record_event (Info SessionCompleted) s
      in if notify self then send_notification FinishedBlocking s1 else s1)"

definition session :: "nat \<Rightarrow> environment \<Rightarrow> blocker_thread \<Rightarrow> state \<Rightarrow> bool \<times> state" where
  "session fuel env self s =
     (case run fuel env self s of
        (True, s') \<Rightarrow> (True, blocking_finished self s')
      | (False, s') \<Rightarrow> (False, s'))"

section \<open>Reading a trace\<close>

fun termination_of :: "event \<Rightarrow> nat option" where
  "termination_of (PsCall q Terminate) = Some q"
| "termination_of _ = None"

text \<open>The processes whose termination was requested, in order.\<close>

definition terminated :: "(int \<times> event) list \<Rightarrow> nat list" where
  "terminated tr = List.map_filter (\<lambda>(t, ev). termination_of ev) tr"

fun stats_of :: "event \<Rightarrow> (int \<times> int \<times> int) option" where
  "stats_of (UpdateStats r b a) = Some (r, b, a)"
| "stats_of _ = None"

text \<open>The arguments of the \<^verbatim>\<open>update_stats\<close> emissions, in order.\<close>

definition updates :: "(int \<times> event) list \<Rightarrow> (int \<times> int \<times> int) list" where
  "updates tr = List.map_filter (\<lambda>(t, ev). stats_of ev) tr"

definition blocked_of :: "int \<times> int \<times> int \<Rightarrow> int" where
  "blocked_of u = fst (snd u)"

definition cumulative_of :: "int \<times> int \<times> int \<Rightarrow> int" where
  "cumulative_of u = snd (snd u)"

text \<open>
  A process is listed when some answer it gives for its path or its name is on the
  worker's lists.
\<close>

definition listed :: "environment \<Rightarrow> blocker_thread \<Rightarrow> process \<Rightarrow> bool" where
  "listed env self proc =
     ((\<exists>h d v. respond proc h Exe = Returns d v \<and> abspath env v \<in> set (app_paths self)) \<or>
      (\<exists>h d v. respond proc h Name = Returns d v \<and> lower env v \<in> set (process_names self)))"


section \<open>What one process contributes\<close>

text \<open>
  \<open>footprint\<close> is what the worker does with a process taken alone: started at instant
  0 with all counters 0. \<open>replay t s\<close> adds such a footprint to a state \<open>s\<close>: the
  durations and the counts are added, the events are appended, shifted to the clock of
  \<open>s\<close>.
\<close>

definition blank :: "call list \<Rightarrow> state" where
  "blank h = \<lparr>clock = 0, attempts = 0, blocked_apps = 0, calls = h, trace = []\<rparr>"

definition later :: "int \<Rightarrow> (int \<times> event) list \<Rightarrow> (int \<times> event) list" where
  "later t evs = map (\<lambda>(off, ev). (t + off, ev)) evs"

definition replay :: "state \<Rightarrow> state \<Rightarrow> state" where
  "replay t s =
     \<lparr>clock = clock s + clock t,
      attempts = attempts s + attempts t,
      blocked_apps = blocked_apps s + blocked_apps t,
      calls = calls t,
      trace = trace s @ later (clock s) (trace t)\<rparr>"

definition footprint :: "environment \<Rightarrow> blocker_thread \<Rightarrow> process \<Rightarrow> state" where
  "footprint env self proc = check_process env self proc (blank [])"

definition uniform :: "'a attempt \<Rightarrow> bool" where
  "uniform m = (\<forall>s. m s = (fst (m (blank (calls s))), replay (snd (m (blank (calls s)))) s))"

definition preserves :: "(state \<Rightarrow> bool) \<Rightarrow> 'a attempt \<Rightarrow> bool" where
  "preserves I m = (\<forall>s. I s \<longrightarrow> I (snd (m s)))"

section \<open>Sample processes, environments and workers\<close>

definition ascii_lower :: "char \<Rightarrow> char" where
  "ascii_lower c =
     (case map_of (zip ''ABCDEFGHIJKLMNOPQRSTUVWXYZ'' ''abcdefghijklmnopqrstuvwxyz'') c of
        Some l \<Rightarrow> l
      | None \<Rightarrow> c)"

text \<open>
  A process that answers every call at once and exits when asked. Once it has been waited
  for it is gone, and a further \<^verbatim>\<open>terminate()\<close> raises \<^verbatim>\<open>NoSuchProcess\<close>. Its path and
  its name stay readable from the handle, where psutil on Windows keeps them.
\<close>

definition cooperative :: "nat \<Rightarrow> string \<Rightarrow> string \<Rightarrow> process" where
  "cooperative i exe name =
     \<lparr>pid = i,
      respond = (\<lambda>h c. case c of Exe \<Rightarrow> Returns 0 exe | Name \<Rightarrow> Returns 0 name
                         | Terminate \<Rightarrow>
                             if Wait \<in> set h then Raises 0 NoSuchProcess else Returns 0 []
                         | Wait \<Rightarrow> Returns 0 [])\<rparr>"

text \<open>
  The same process seen through psutil on Linux, where the name is read from the system
  each time: once the process is gone, \<^verbatim>\<open>name()\<close> raises too.
\<close>

definition departing :: "nat \<Rightarrow> string \<Rightarrow> string \<Rightarrow> process" where
  "departing i exe name =
     \<lparr>pid = i,
      respond = (\<lambda>h c. case c of Exe \<Rightarrow> Returns 0 exe
                         | Name \<Rightarrow>
                             if Wait \<in> set h then Raises 0 NoSuchProcess else Returns 0 name
                         | Terminate \<Rightarrow>
                             if Wait \<in> set h then Raises 0 NoSuchProcess else Returns 0 []
                         | Wait \<Rightarrow> Returns 0 [])\<rparr>"

text \<open>A process that never exits: \<^verbatim>\<open>wait(timeout=3)\<close> raises after three seconds.\<close>

definition stubborn :: "nat \<Rightarrow> string \<Rightarrow> string \<Rightarrow> process" where
  "stubborn i exe name =
     \<lparr>pid = i,
      respond = (\<lambda>h c. case c of Exe \<Rightarrow> Returns 0 exe | Name \<Rightarrow> Returns 0 name
                         | Terminate \<Rightarrow> Returns 0 [] | Wait \<Rightarrow> Raises 3000000 TimeoutExpired)\<rparr>"

text \<open>
  A machine with a fixed process table, where nobody stops the worker and sleeps are
  exact. The sample paths are absolute already.
\<close>

definition desk :: "process list \<Rightarrow> environment" where
  "desk ps =
     \<lparr>stop_at = None, processes = (\<lambda>t. ps), oversleep = (\<lambda>t. 0),
      abspath = (\<lambda>p. p), lower = map ascii_lower\<rparr>"

definition by_name :: blocker_thread where
  "by_name = init (desk []) [] [''Calc.exe''] 1 None False 55"


definition by_both :: blocker_thread where
  "by_both = init (desk []) [''C:/calc.exe''] [''Calc.exe''] 1 None False 55"

text \<open>
  A process whose executable path may not be read (\<^verbatim>\<open>exe()\<close> raises
  \<^verbatim>\<open>AccessDenied\<close>), though its name can be and it exits when asked.
\<close>

definition guarded :: "nat \<Rightarrow> string \<Rightarrow> process" where
  "guarded i name =
     \<lparr>pid = i,
      respond = (\<lambda>h c. case c of Exe \<Rightarrow> Raises 0 AccessDenied | Name \<Rightarrow> Returns 0 name
                         | Terminate \<Rightarrow>
                             if Wait \<in> set h then Raises 0 NoSuchProcess else Returns 0 []
                         | Wait \<Rightarrow> Returns 0 [])\<rparr>"

section \<open>Notions used in the proofs\<close>

text \<open>
  The events a sweep records for one process; the events \<^verbatim>\<open>run\<close> records outside its
  loops; the instants at which a pass over the process table began; whether the
  \<^verbatim>\<open>running\<close> flag is still set at an instant; and the bookkeeping of the emitted
  counters: \<open>tallies a us\<close> says that, starting from \<open>a\<close>, every update of \<open>us\<close> carries the
  total of the per-tick counts up to and including its own.
\<close>

fun sweep_event :: "event \<Rightarrow> bool" where
  "sweep_event (PsCall q c) = True"
| "sweep_event (Info (TerminatedProcess q n)) = True"
| "sweep_event (Notify (TerminatedProcess q n)) = True"
| "sweep_event (Warning m) = True"
| "sweep_event _ = False"

fun announcement :: "message \<Rightarrow> bool" where
  "announcement (TerminatedProcess q n) = False"
| "announcement (FailedToTerminate q e) = False"
| "announcement _ = True"

fun plain :: "event \<Rightarrow> bool" where
  "plain (Info m) = announcement m"
| "plain (Error m) = announcement m"
| "plain (Notify m) = announcement m"
| "plain _ = False"

fun pass_of :: "int \<times> event \<Rightarrow> int option" where
  "pass_of (t, ProcessIter) = Some t"
| "pass_of _ = None"

definition passes :: "(int \<times> event) list \<Rightarrow> int list" where
  "passes tr = List.map_filter pass_of tr"

definition running_at :: "environment \<Rightarrow> int \<Rightarrow> bool" where
  "running_at env t = (case stop_at env of None \<Rightarrow> True | Some ts \<Rightarrow> t < ts)"

fun tallies :: "int \<Rightarrow> (int \<times> int \<times> int) list \<Rightarrow> bool" where
  "tallies a [] = True"
| "tallies a (u # us) =
     (0 \<le> blocked_of u \<and> cumulative_of u = a + blocked_of u \<and> tallies (cumulative_of u) us)"

definition running_total :: "int \<Rightarrow> (int \<times> int \<times> int) list \<Rightarrow> int" where
  "running_total a us = a + sum_list (map blocked_of us)"

definition quiet :: "state \<Rightarrow> bool" where
  "quiet u = (attempts u = blocked_apps u \<and> 0 \<le> blocked_apps u \<and> 0 \<le> clock u \<and>
     (\<forall>(t, ev) \<in> set (trace u). sweep_event ev \<and> 0 \<le> t \<and> t \<le> clock u))"

definition consistent :: "int \<Rightarrow> state \<Rightarrow> bool" where
  "consistent a s = (tallies a (updates (trace s)) \<and> attempts s = running_total a (updates (trace s)))"

text \<open>What the countdown is expected to record in \<open>n\<close> iterations begun with \<open>w\<close> to wait.\<close>

definition countdown_events :: "int \<Rightarrow> int \<Rightarrow> nat \<Rightarrow> event list" where
  "countdown_events w a n =
     concat (map (\<lambda>k. [UpdateStats (int_seconds (w - int k * 1000000)) 0 a, Sleep 1]) [0..<n])"

text \<open>A machine where \<^verbatim>\<open>stop()\<close> is called at a given instant.\<close>

definition interrupted_desk :: "int \<Rightarrow> process list \<Rightarrow> environment" where
  "interrupted_desk t ps = (desk ps)\<lparr>stop_at := Some t\<rparr>"

text \<open>A machine where every sleep overshoots by half a second.\<close>

definition sluggish_desk :: "process list \<Rightarrow> environment" where
  "sluggish_desk ps = (desk ps)\<lparr>oversleep := (\<lambda>t. 500000)\<rparr>"

text \<open>Workers with a scheduled start: a well-formed one and a malformed one.\<close>

definition at_midnight :: blocker_thread where
  "at_midnight = init (desk []) [] [''Calc.exe''] 30 (Some ''00:00'') True 5"

definition at_no_time :: blocker_thread where
  "at_no_time = init (desk []) [] [''Calc.exe''] 30 (Some ''25:00'') False 1"

text \<open>
  The termination requests made in the pass begun at an instant: those made while handling
  each handle of the process table, in turn.
\<close>

definition requests :: "environment \<Rightarrow> blocker_thread \<Rightarrow> int \<Rightarrow> nat list" where
  "requests env self t =
     concat (map (\<lambda>p. terminated (trace (footprint env self p))) (processes env t))"

text \<open>
  A machine where the process id of a calculator that has exited is taken, half a minute
  later, by a text editor.
\<close>

definition reusing_desk :: environment where
  "reusing_desk =
     (desk [])\<lparr>processes := (\<lambda>t. if t < 30000000
        then [cooperative 8 ''C:/calc.exe'' ''calc.exe'']
        else [cooperative 8 ''C:/notepad.exe'' ''notepad.exe''])\<rparr>"

section \<open>Lemmas on one process\<close>

lemmas sweep_defs =
  sweep_def check_process_def check_by_path_def check_by_name_def and_then_def ps_call_def
  succeed_def perform_def record_event_def count_block_def send_notification_def

lemma later_simps [simp]:
  "later t [] = []"
  "later t (xs @ ys) = later t xs @ later t ys"
  "later t [(u, ev)] = [(t + u, ev)]"
  "later t (later u xs) = later (t + u) xs"
  by (simp_all add: later_def case_prod_unfold add.assoc)

lemma later_zero [simp]: "later 0 xs = xs"
  by (simp add: later_def)

lemma replay_replay: "replay (replay u t) s = replay u (replay t s)"
  by (simp add: replay_def add.assoc)

lemma replay_blank_calls [simp]: "calls (replay t s) = calls t"
  by (simp add: replay_def)

lemma uniformI:
  "(\<And>s. m s = (fst (m (blank (calls s))), replay (snd (m (blank (calls s)))) s)) \<Longrightarrow> uniform m"
  unfolding uniform_def by blast

lemma uniformD:
  "uniform m \<Longrightarrow> m s = (fst (m (blank (calls s))), replay (snd (m (blank (calls s)))) s)"
  unfolding uniform_def by blast

lemma blank_calls [simp]: "calls (blank h) = h"
  by (simp add: blank_def)

lemma uniform_succeed: "uniform (succeed v)"
  by (simp add: uniform_def succeed_def replay_def blank_def)

lemma uniform_ps_call: "uniform (ps_call proc c)"
  by (simp add: uniform_def ps_call_def record_event_def replay_def blank_def Let_def
      split: answer.splits)

lemma uniform_count_block: "uniform (perform count_block)"
  by (simp add: uniform_def perform_def count_block_def replay_def blank_def)

lemma uniform_record_event: "uniform (perform (record_event ev))"
  by (simp add: uniform_def perform_def record_event_def replay_def blank_def)

lemma uniform_send_notification: "uniform (perform (send_notification m))"
  by (simp add: uniform_def perform_def send_notification_def record_event_def replay_def blank_def)

lemma uniform_and_then:
  assumes m: "uniform m" and f: "\<And>v. uniform (f v)"
  shows "uniform (and_then m f)"
proof (rule uniformI)
  fix s :: state
  obtain r t where mb: "m (blank (calls s)) = (r, t)"
    by (cases "m (blank (calls s))")
  have ms: "m s = (r, replay t s)"
    using uniformD [OF m, of s] mb by simp
  show "and_then m f s =
      (fst (and_then m f (blank (calls s))), replay (snd (and_then m f (blank (calls s)))) s)"
  proof (cases r)
    case (Inl e)
    then show ?thesis
      by (simp add: and_then_def ms mb)
  next
    case (Inr v)
    obtain r2 u where fb: "f v (blank (calls t)) = (r2, u)"
      by (cases "f v (blank (calls t))")
    have "f v (replay t s) = (r2, replay u (replay t s))"
      using uniformD [OF f, of v "replay t s"] fb by simp
    moreover have "f v t = (r2, replay u t)"
      using uniformD [OF f, of v t] fb by simp
    ultimately show ?thesis
      using Inr by (simp add: and_then_def ms mb replay_replay)
  qed
qed

lemma uniform_if: "uniform a \<Longrightarrow> uniform b \<Longrightarrow> uniform (if c then a else b)"
  by simp

lemmas uniform_intros =
  uniform_and_then uniform_if uniform_succeed uniform_ps_call uniform_count_block
  uniform_record_event uniform_send_notification

lemma uniform_check_by_path: "uniform (check_by_path env self proc)"
  unfolding check_by_path_def by (intro uniform_intros)

lemma uniform_check_by_name: "uniform (check_by_name env self proc)"
  unfolding check_by_name_def by (intro uniform_intros)

lemma check_process_replay:
  "check_process env self proc s = replay (footprint env self proc) s"
proof -
  let ?body = "and_then (check_by_path env self proc) (\<lambda>_. check_by_name env self proc)"
  have u: "uniform ?body"
    by (intro uniform_intros uniform_check_by_path uniform_check_by_name)
  obtain r t where b: "?body (blank []) = (r, t)"
    by (cases "?body (blank [])")
  have "?body (s\<lparr>calls := []\<rparr>) = (r, replay t (s\<lparr>calls := []\<rparr>))"
    using uniformD [OF u, of "s\<lparr>calls := []\<rparr>"] b by simp
  moreover have "blank [] \<lparr>calls := []\<rparr> = blank []"
    by (simp add: blank_def)
  ultimately show ?thesis
    using b
    by (cases r) (simp_all add: check_process_def footprint_def replay_def record_event_def blank_def)
qed

lemma preserves_succeed: "preserves I (succeed v)"
  by (simp add: preserves_def succeed_def)

lemma preserves_perform: "(\<And>s. I s \<Longrightarrow> I (f s)) \<Longrightarrow> preserves I (perform f)"
  by (simp add: preserves_def perform_def)

lemma preserves_and_then:
  "preserves I m \<Longrightarrow> (\<And>v. preserves I (f v)) \<Longrightarrow> preserves I (and_then m f)"
  unfolding preserves_def and_then_def
  by (auto split: prod.splits sum.splits)

lemma ps_call_cases:
  obtains d v where "respond proc (calls s) c = Returns d v"
      and "ps_call proc c s =
        (Inr v, (record_event (PsCall (pid proc) c) s)\<lparr>calls := calls s @ [c], clock := clock s + int d\<rparr>)"
  | d e where "respond proc (calls s) c = Raises d e"
      and "ps_call proc c s =
        (Inl e, (record_event (PsCall (pid proc) c) s)\<lparr>calls := calls s @ [c], clock := clock s + int d\<rparr>)"
  by (cases "respond proc (calls s) c") (simp_all add: ps_call_def Let_def)

lemma preserves_ps_call:
  assumes "\<And>s d. I s \<Longrightarrow>
    I ((record_event (PsCall (pid proc) c) s)\<lparr>calls := calls s @ [c], clock := clock s + int d\<rparr>)"
  shows "preserves I (ps_call proc c)"
  unfolding preserves_def
proof (intro allI impI)
  fix s assume "I s"
  then show "I (snd (ps_call proc c s))"
    using assms by (cases "respond proc (calls s) c") (simp_all add: ps_call_def Let_def)
qed

lemma preserves_call_then:
  assumes call: "preserves I (ps_call proc c)"
    and rest: "\<And>v h d. respond proc h c = Returns d v \<Longrightarrow> preserves I (f v)"
  shows "preserves I (and_then (ps_call proc c) f)"
  unfolding preserves_def
proof (intro allI impI)
  fix s assume I: "I s"
  show "I (snd (and_then (ps_call proc c) f s))"
  proof (rule ps_call_cases [of proc s c])
    fix d v
    assume r: "respond proc (calls s) c = Returns d v"
      and eq: "ps_call proc c s =
        (Inr v, (record_event (PsCall (pid proc) c) s)\<lparr>calls := calls s @ [c], clock := clock s + int d\<rparr>)"
    have "I (snd (ps_call proc c s))"
      using call I by (simp add: preserves_def)
    moreover have "preserves I (f v)"
      using rest r by blast
    ultimately show ?thesis
      by (simp add: and_then_def eq preserves_def)
  next
    fix d e
    assume eq: "ps_call proc c s =
        (Inl e, (record_event (PsCall (pid proc) c) s)\<lparr>calls := calls s @ [c], clock := clock s + int d\<rparr>)"
    have "I (snd (ps_call proc c s))"
      using call I by (simp add: preserves_def)
    then show ?thesis
      by (simp add: and_then_def eq)
  qed
qed

lemma preserves_if:
  "(c \<Longrightarrow> preserves I a) \<Longrightarrow> (\<not> c \<Longrightarrow> preserves I b) \<Longrightarrow> preserves I (if c then a else b)"
  by simp

lemmas preserves_intros =
  preserves_call_then preserves_and_then preserves_if preserves_succeed

lemma preserves_check_process:
  assumes path: "preserves I (check_by_path env self proc)"
    and name: "preserves I (check_by_name env self proc)"
    and warn: "\<And>s e. I s \<Longrightarrow> I (record_event (Warning (FailedToTerminate (pid proc) e)) s)"
    and start: "I (s\<lparr>calls := []\<rparr>)"
  shows "I (check_process env self proc s)"
proof -
  let ?body = "and_then (check_by_path env self proc) (\<lambda>_. check_by_name env self proc)"
  have "preserves I ?body"
    using path name by (intro preserves_and_then)
  then have "I (snd (?body (s\<lparr>calls := []\<rparr>)))"
    using start by (simp add: preserves_def)
  then show ?thesis
    by (auto simp: check_process_def warn split: prod.splits sum.splits)
qed

lemma never_exits_uncounted:
  assumes "\<And>h. \<exists>d e. respond proc h Wait = Raises d e"
  shows "blocked_apps (check_process env self proc s) = blocked_apps s \<and>
         attempts (check_process env self proc s) = attempts s"
proof -
  define I where "I = (\<lambda>u::state. blocked_apps u = blocked_apps s \<and> attempts u = attempts s)"
  have call: "preserves I (ps_call proc c)" for c
    by (rule preserves_ps_call) (simp add: I_def record_event_def)
  have ev: "preserves I (perform (record_event e))" for e
    by (rule preserves_perform) (simp add: I_def record_event_def)
  have nt: "preserves I (perform (send_notification m))" for m
    by (rule preserves_perform) (simp add: I_def record_event_def send_notification_def)
  have no: "respond proc h Wait \<noteq> Returns d v" for h d v
    using assms [of h] by auto
  have "preserves I (check_by_path env self proc)"
    unfolding check_by_path_def
    by (intro preserves_intros call ev nt) (simp_all add: no)
  moreover have "preserves I (check_by_name env self proc)"
    unfolding check_by_name_def
    by (intro preserves_intros call ev nt) (simp_all add: no)
  ultimately have "I (check_process env self proc s)"
    by (rule preserves_check_process) (simp_all add: I_def record_event_def)
  then show ?thesis
    by (simp add: I_def)
qed

lemma fold_check_process_counts:
  "blocked_apps (fold (check_process env self) ps s) =
     blocked_apps s + (\<Sum>p\<leftarrow>ps. blocked_apps (footprint env self p)) \<and>
   attempts (fold (check_process env self) ps s) =
     attempts s + (\<Sum>p\<leftarrow>ps. attempts (footprint env self p))"
proof (induction ps arbitrary: s)
  case Nil
  show ?case by simp
next
  case (Cons p ps)
  show ?case
    by (simp add: Cons.IH check_process_replay [of env self p s] replay_def)
qed

lemma footprint_never_exits:
  assumes "\<And>h. \<exists>d e. respond proc h Wait = Raises d e"
  shows "blocked_apps (footprint env self proc) = 0" "attempts (footprint env self proc) = 0"
  using never_exits_uncounted [OF assms, of env self "blank []"]
  by (simp_all add: footprint_def blank_def)

section \<open>Counting in a sweep\<close>

text \<open>
  C1, as the specification states it, fails: a process matched by name whose
  \<^verbatim>\<open>wait(timeout=3)\<close> times out has had its termination requested, yet the
  increments of lines 134 and 135 are skipped by the exception, so the tick counts
  nothing for it.
\<close>

theorem timed_out_wait_is_not_counted:
  "terminated (trace (sweep (desk [stubborn 7 ''C:/calc.exe'' ''CALC.EXE'']) by_name (initial 0)))
     = [7] \<and>
   blocked_apps (sweep (desk [stubborn 7 ''C:/calc.exe'' ''CALC.EXE'']) by_name (initial 0)) = 0 \<and>
   attempts (sweep (desk [stubborn 7 ''C:/calc.exe'' ''CALC.EXE'']) by_name (initial 0)) = 0"
  by (simp add: sweep_defs desk_def by_name_def init_def stubborn_def initial_def ascii_lower_def
      terminated_def)

text \<open>
  C1, amended: \<open>blocked_apps\<close> and \<open>attempts\<close> are incremented only after the
  termination request and the bounded wait have both returned. A process whose wait
  does not return is counted zero times, whatever was requested of it, and the sweep
  still finishes: after the pass the two counters hold what the other processes of the
  table contribute, each on its own.
\<close>

theorem counted_after_confirmed_exit:
  assumes "processes env (clock s) = ps @ proc # qs"
    and "\<And>h. \<exists>d e. respond proc h Wait = Raises d e"
  shows "blocked_apps (check_process env self proc u) = blocked_apps u \<and>
         attempts (check_process env self proc u) = attempts u \<and>
         blocked_apps (sweep env self s) = (\<Sum>p\<leftarrow>ps @ qs. blocked_apps (footprint env self p)) \<and>
         attempts (sweep env self s) =
           attempts s + (\<Sum>p\<leftarrow>ps @ qs. attempts (footprint env self p))"
proof -
  have one: "blocked_apps (check_process env self proc u) = blocked_apps u \<and>
         attempts (check_process env self proc u) = attempts u"
    using assms(2) by (rule never_exits_uncounted)
  have pass: "sweep env self s =
      fold (check_process env self) (ps @ proc # qs) (record_event ProcessIter (s\<lparr>blocked_apps := 0\<rparr>))"
    by (simp add: sweep_def assms(1))
  have "blocked_apps (sweep env self s) = (\<Sum>p\<leftarrow>ps @ qs. blocked_apps (footprint env self p))"
    unfolding pass
    by (simp add: fold_check_process_counts never_exits_uncounted [OF assms(2)] record_event_def)
  moreover have "attempts (sweep env self s) =
      attempts s + (\<Sum>p\<leftarrow>ps @ qs. attempts (footprint env self p))"
    unfolding pass
    by (simp add: fold_check_process_counts never_exits_uncounted [OF assms(2)] record_event_def)
  ultimately show ?thesis
    using one by simp
qed

text \<open>
  C1, witness: a process that never exits, followed in the table by one that does.
  Both are asked to terminate; the pass counts the second only.
\<close>

theorem counted_after_confirmed_exit_witness:
  "processes (desk [stubborn 7 ''C:/calc.exe'' ''CALC.EXE'', cooperative 8 ''C:/calc.exe'' ''calc.exe''])
     (clock (initial 0))
     = [] @ stubborn 7 ''C:/calc.exe'' ''CALC.EXE'' # [cooperative 8 ''C:/calc.exe'' ''calc.exe''] \<and>
   (\<forall>h. \<exists>d e. respond (stubborn 7 ''C:/calc.exe'' ''CALC.EXE'') h Wait = Raises d e) \<and>
   blocked_apps
     (sweep (desk [stubborn 7 ''C:/calc.exe'' ''CALC.EXE'', cooperative 8 ''C:/calc.exe'' ''calc.exe''])
        by_name (initial 0)) = 1 \<and>
   attempts
     (sweep (desk [stubborn 7 ''C:/calc.exe'' ''CALC.EXE'', cooperative 8 ''C:/calc.exe'' ''calc.exe''])
        by_name (initial 0)) = 1"
proof -
  let ?env = "desk [stubborn 7 ''C:/calc.exe'' ''CALC.EXE'', cooperative 8 ''C:/calc.exe'' ''calc.exe'']"
  have table: "processes ?env (clock (initial 0))
      = [] @ stubborn 7 ''C:/calc.exe'' ''CALC.EXE'' # [cooperative 8 ''C:/calc.exe'' ''calc.exe'']"
    by (simp add: desk_def)
  have hangs: "\<exists>d e. respond (stubborn 7 ''C:/calc.exe'' ''CALC.EXE'') h Wait = Raises d e" for h
    by (simp add: stubborn_def)
  have alone: "blocked_apps (footprint ?env by_name (cooperative 8 ''C:/calc.exe'' ''calc.exe'')) = 1 \<and>
      attempts (footprint ?env by_name (cooperative 8 ''C:/calc.exe'' ''calc.exe'')) = 1"
    by (simp add: footprint_def blank_def sweep_defs desk_def by_name_def init_def cooperative_def
        ascii_lower_def)
  show ?thesis
    using counted_after_confirmed_exit [OF table hangs, of by_name "initial 0"] table hangs alone
    by (simp add: initial_def)
qed

section \<open>Termination requests in a trace\<close>

lemma terminated_simps [simp]:
  "terminated [] = []"
  "terminated (xs @ ys) = terminated xs @ terminated ys"
  "terminated ((t, ev) # xs) = (case termination_of ev of None \<Rightarrow> terminated xs | Some q \<Rightarrow> q # terminated xs)"
  by (simp_all add: terminated_def List.map_filter_def split: option.splits)

lemma terminated_later [simp]: "terminated (later t xs) = terminated xs"
  by (induction xs) (auto simp: later_def split: option.splits)

lemma terminated_record_event:
  "terminated (trace (record_event ev s)) =
     terminated (trace s) @ (case termination_of ev of None \<Rightarrow> [] | Some q \<Rightarrow> [q])"
  by (simp add: record_event_def split: option.splits)

lemma sleep_trace [simp]: "trace (sleep env n s) = trace s @ [(clock s, Sleep n)]"
  by (simp add: sleep_def record_event_def)

section \<open>Failures inside a sweep\<close>

text \<open>
  When the path read at line 115 is the empty string, the test by path ends quietly and
  the test by name follows. When the same read raises, the exception leaves the \<^verbatim>\<open>try\<close>:
  the warning of line 139 is logged and the test by name is not run.
\<close>

lemma path_empty_then_name:
  assumes "app_paths self \<noteq> []" and "respond proc (calls s) Exe = Returns d []"
  shows "and_then (check_by_path env self proc) (\<lambda>_. check_by_name env self proc) s =
         check_by_name env self proc
           ((record_event (PsCall (pid proc) Exe) s)\<lparr>calls := calls s @ [Exe], clock := clock s + int d\<rparr>)"
  using assms
  by (simp add: check_by_path_def and_then_def ps_call_def succeed_def)

lemma path_raises_then_skipped:
  assumes "app_paths self \<noteq> []" and "respond proc [] Exe = Raises d e"
  shows "check_process env self proc s =
         record_event (Warning (FailedToTerminate (pid proc) e))
           ((record_event (PsCall (pid proc) Exe) s)\<lparr>calls := [Exe], clock := clock s + int d\<rparr>)"
  using assms
  by (simp add: check_process_def check_by_path_def and_then_def ps_call_def succeed_def record_event_def)

text \<open>
  C3: a path that cannot be read should count as no match by path only. The code does so
  when \<^verbatim>\<open>exe()\<close> returns the empty string, but not when it raises: the process below,
  whose path may not be read and whose name is listed, is left alone when the worker has a
  path list, and is asked to terminate by the same name list when it has none.
\<close>

theorem unreadable_path_skips_name_test:
  "terminated (trace (sweep (desk [guarded 9 ''calc.exe'']) by_both (initial 0))) = [] \<and>
   terminated (trace (sweep (desk [guarded 9 ''calc.exe'']) by_name (initial 0))) = [9]"
  by (simp add: sweep_defs desk_def by_both_def by_name_def init_def guarded_def initial_def
      ascii_lower_def)

section \<open>Invariants of the loops\<close>

lemma updates_simps [simp]:
  "updates [] = []"
  "updates (xs @ ys) = updates xs @ updates ys"
  "updates ((t, ev) # xs) = (case stats_of ev of None \<Rightarrow> updates xs | Some u \<Rightarrow> u # updates xs)"
  by (simp_all add: updates_def List.map_filter_def split: option.splits)

lemma passes_simps [simp]:
  "passes [] = []"
  "passes (xs @ ys) = passes xs @ passes ys"
  "passes (x # xs) = (case pass_of x of None \<Rightarrow> passes xs | Some t \<Rightarrow> t # passes xs)"
  by (simp_all add: passes_def List.map_filter_def split: option.splits)

lemma sweep_events_updates: "\<forall>(t, ev) \<in> set tr. sweep_event ev \<Longrightarrow> updates tr = []"
proof (induction tr)
  case Nil
  show ?case by simp
next
  case (Cons x tr)
  obtain t ev where x: "x = (t, ev)" by (cases x)
  have "sweep_event ev" using Cons.prems x by simp
  then have "stats_of ev = None" by (cases ev rule: sweep_event.cases) simp_all
  then show ?case using Cons x by simp
qed

lemma sweep_events_passes: "\<forall>(t, ev) \<in> set tr. sweep_event ev \<Longrightarrow> passes tr = []"
proof (induction tr)
  case Nil
  show ?case by simp
next
  case (Cons x tr)
  obtain t ev where x: "x = (t, ev)" by (cases x)
  have "sweep_event ev" using Cons.prems x by simp
  then have "pass_of (t, ev) = None" by (cases ev rule: sweep_event.cases) simp_all
  then show ?case using Cons x by simp
qed

lemma updates_later [simp]: "updates (later t xs) = updates xs"
  by (induction xs) (auto simp: later_def split: option.splits)

lemma set_later: "set (later t xs) = (\<lambda>(u, ev). (t + u, ev)) ` set xs"
  by (simp add: later_def)

lemma quiet_footprint: "quiet (footprint env self proc)"
proof -
  have call: "preserves quiet (ps_call proc c)" for c
    by (rule preserves_ps_call) (fastforce simp: quiet_def record_event_def)
  have ev: "preserves quiet (perform (record_event (Info (TerminatedProcess q n))))" for q n
    by (rule preserves_perform) (auto simp: quiet_def record_event_def)
  have nt: "preserves quiet (perform (send_notification (TerminatedProcess q n)))" for q n
    by (rule preserves_perform) (auto simp: quiet_def record_event_def send_notification_def)
  have cb: "preserves quiet (perform count_block)"
    by (rule preserves_perform) (auto simp: quiet_def count_block_def)
  have "preserves quiet (check_by_path env self proc)"
    unfolding check_by_path_def by (intro preserves_intros call ev nt cb)
  moreover have "preserves quiet (check_by_name env self proc)"
    unfolding check_by_name_def by (intro preserves_intros call ev nt cb)
  ultimately show ?thesis
    unfolding footprint_def
    by (rule preserves_check_process) (auto simp: quiet_def record_event_def blank_def)
qed

lemma footprint_facts:
  "attempts (footprint env self proc) = blocked_apps (footprint env self proc)"
  "0 \<le> blocked_apps (footprint env self proc)"
  "0 \<le> clock (footprint env self proc)"
  "updates (trace (footprint env self proc)) = []"
  "passes (trace (footprint env self proc)) = []"
  using quiet_footprint [of env self proc]
  by (auto simp: quiet_def intro!: sweep_events_updates sweep_events_passes)

lemma footprint_events:
  "(t, ev) \<in> set (trace (footprint env self proc)) \<Longrightarrow> sweep_event ev \<and> 0 \<le> t"
  using quiet_footprint [of env self proc] by (auto simp: quiet_def)

lemma fold_check_process_frame:
  "updates (trace (fold (check_process env self) ps s)) = updates (trace s) \<and>
   attempts (fold (check_process env self) ps s) - blocked_apps (fold (check_process env self) ps s)
     = attempts s - blocked_apps s \<and>
   blocked_apps s \<le> blocked_apps (fold (check_process env self) ps s) \<and>
   clock s \<le> clock (fold (check_process env self) ps s)"
proof (induction ps arbitrary: s)
  case Nil
  show ?case by simp
next
  case (Cons p ps)
  show ?case
    using Cons.IH [of "check_process env self p s"] footprint_facts [of env self p]
    by (simp add: check_process_replay [of env self p s] replay_def)
qed

lemma sweep_frame:
  "updates (trace (sweep env self s)) = updates (trace s)"
  "attempts (sweep env self s) = attempts s + blocked_apps (sweep env self s)"
  "0 \<le> blocked_apps (sweep env self s)"
  "clock s \<le> clock (sweep env self s)"
  using fold_check_process_frame
    [of env self "processes env (clock s)" "record_event ProcessIter (s\<lparr>blocked_apps := 0\<rparr>)"]
  by (simp_all add: sweep_def record_event_def)

lemma tallies_total: "tallies a us \<Longrightarrow> 0 \<le> b \<Longrightarrow> tallies a (us @ [(r, b, running_total a us + b)])"
proof (induction us arbitrary: a)
  case Nil
  then show ?case by (simp add: running_total_def blocked_of_def cumulative_of_def)
next
  case (Cons u us)
  have "running_total a (u # us) = running_total (cumulative_of u) us"
    using Cons.prems by (simp add: running_total_def)
  then show ?case
    using Cons.IH [of "cumulative_of u"] Cons.prems by auto
qed

lemma total_snoc: "running_total a (us @ [(r, b, c)]) = running_total a us + b"
  by (simp add: running_total_def blocked_of_def)

lemma blocking_loop_invariant:
  assumes start: "P s"
    and tick: "\<And>u. P u \<Longrightarrow> clock u < e \<Longrightarrow> running env u \<Longrightarrow>
      P (sleep env (check_frequency self)
          (record_event
             (UpdateStats (int_seconds (e - clock (sweep env self u)))
                (blocked_apps (sweep env self u)) (attempts (sweep env self u)))
             (sweep env self u)))"
  shows "P (snd (blocking_loop fuel env self e s))"
  using start
proof (induction fuel arbitrary: s)
  case 0
  then show ?case by simp
next
  case (Suc fuel)
  show ?case
  proof (cases "clock s < e \<and> running env s")
    case False
    then show ?thesis using Suc.prems by auto
  next
    case True
    let ?s1 = "sweep env self s"
    let ?s3 = "sleep env (check_frequency self)
      (record_event (UpdateStats (int_seconds (e - clock ?s1)) (blocked_apps ?s1) (attempts ?s1)) ?s1)"
    have "P ?s3"
      using Suc.prems True by (intro tick) simp_all
    then have "P (snd (blocking_loop fuel env self e ?s3))"
      by (rule Suc.IH)
    then show ?thesis
      using True by (simp add: Let_def)
  qed
qed

lemma countdown_invariant:
  assumes start: "P s"
    and step: "\<And>u v. P u \<Longrightarrow> 0 < v \<Longrightarrow> running env u \<Longrightarrow>
      P (sleep env 1 (record_event (UpdateStats (int_seconds v) 0 (attempts u)) u))"
  shows "P (countdown env w s)"
  using start step
proof (induction env w s rule: countdown.induct)
  case (1 env w s)
  show ?case
  proof (cases "w > 0 \<and> running env s")
    case True
    let ?s' = "sleep env 1 (record_event (UpdateStats (int_seconds w) 0 (attempts s)) s)"
    have "countdown env w s = countdown env (w - 1000000) ?s'"
      using True by (subst countdown.simps) simp
    moreover have "P ?s'"
      using "1.prems"(1) True by (intro "1.prems"(2)) simp_all
    ultimately show ?thesis
      using "1.IH" [OF True] "1.prems"(2) by simp
  next
    case False
    then show ?thesis using "1.prems"(1) by (subst countdown.simps) auto
  qed
qed

lemma announce_invariant:
  assumes "P s" and "\<And>u ev. P u \<Longrightarrow> plain ev \<Longrightarrow> P (record_event ev u)"
    and "plain (lvl m)" and "plain (Notify m)"
  shows "P (if notify self then send_notification m (record_event (lvl m) s)
            else record_event (lvl m) s)"
  using assms by (simp add: send_notification_def)

lemma block_invariant:
  assumes start: "P s"
    and plain: "\<And>u ev. P u \<Longrightarrow> plain ev \<Longrightarrow> P (record_event ev u)"
    and tick: "\<And>u. P u \<Longrightarrow> clock u < clock s + duration_minutes self * 60000000 \<Longrightarrow>
      running env u \<Longrightarrow>
      P (sleep env (check_frequency self)
          (record_event
             (UpdateStats
                (int_seconds (clock s + duration_minutes self * 60000000 - clock (sweep env self u)))
                (blocked_apps (sweep env self u)) (attempts (sweep env self u)))
             (sweep env self u)))"
  shows "P (snd (block fuel env self s))"
proof -
  let ?m = "StartedBlocking (duration_minutes self)"
  let ?s2 = "if notify self then send_notification ?m (record_event (Info ?m) s)
             else record_event (Info ?m) s"
  let ?end = "clock s + duration_minutes self * 60000000"
  obtain left s3 where loop: "blocking_loop fuel env self ?end ?s2 = (left, s3)"
    by (cases "blocking_loop fuel env self ?end ?s2")
  have "P ?s2"
    using start plain by (rule announce_invariant [where P = P and lvl = Info]) simp_all
  then have "P (snd (blocking_loop fuel env self ?end ?s2))"
    using tick by (rule blocking_loop_invariant)
  then have s3: "P s3"
    by (simp add: loop)
  have "P (if notify self then send_notification FinishedBlocking (record_event (Info FinishedBlocking) s3)
           else record_event (Info FinishedBlocking) s3)"
    using s3 plain by (rule announce_invariant [where P = P and lvl = Info]) simp_all
  then show ?thesis
    using s3 loop by (cases left) (simp_all add: block_def Let_def)
qed

lemma wait_for_start_invariant:
  assumes start: "P s"
    and plain: "\<And>u ev. P u \<Longrightarrow> plain ev \<Longrightarrow> P (record_event ev u)"
    and step: "\<And>u v. P u \<Longrightarrow> 0 < v \<Longrightarrow> running env u \<Longrightarrow>
      P (sleep env 1 (record_event (UpdateStats (int_seconds v) 0 (attempts u)) u))"
  shows "case wait_for_start env self st s of Inl s' \<Rightarrow> P s' | Inr s' \<Rightarrow> P s'"
proof (cases "strptime_HM st")
  case None
  have "P (if notify self
           then send_notification IncorrectTimeFormat (record_event (Error IncorrectTimeFormat) s)
           else record_event (Error IncorrectTimeFormat) s)"
    using start plain by (rule announce_invariant [where P = P and lvl = Error]) simp_all
  then show ?thesis
    using None by (simp add: wait_for_start_def Let_def)
next
  case (Some hm)
  obtain h m where hm: "hm = (h, m)" by (cases hm)
  define start_datetime where "start_datetime =
    (if clock s - clock s mod day + (int h * 3600 + int m * 60) * 1000000 < clock s
     then clock s - clock s mod day + (int h * 3600 + int m * 60) * 1000000 + day
     else clock s - clock s mod day + (int h * 3600 + int m * 60) * 1000000)"
  let ?s2 = "if notify self
      then send_notification (ScheduledAt start_datetime) (record_event (Info (ScheduledAt start_datetime)) s)
      else record_event (Info (ScheduledAt start_datetime)) s"
  have "P ?s2"
    using start plain by (rule announce_invariant [where P = P and lvl = Info]) simp_all
  then have "P (countdown env (start_datetime - clock s) ?s2)"
    using step by (rule countdown_invariant)
  moreover have "wait_for_start env self st s = Inr (countdown env (start_datetime - clock s) ?s2)"
    using Some hm by (simp add: wait_for_start_def Let_def start_datetime_def)
  ultimately show ?thesis by simp
qed

lemma run_invariant:
  assumes start: "P s"
    and plain: "\<And>u ev. P u \<Longrightarrow> plain ev \<Longrightarrow> P (record_event ev u)"
    and step: "\<And>u v. P u \<Longrightarrow> 0 < v \<Longrightarrow> running env u \<Longrightarrow>
      P (sleep env 1 (record_event (UpdateStats (int_seconds v) 0 (attempts u)) u))"
    and tick: "\<And>u e. P u \<Longrightarrow> clock u < e \<Longrightarrow> running env u \<Longrightarrow>
      P (sleep env (check_frequency self)
          (record_event
             (UpdateStats (int_seconds (e - clock (sweep env self u)))
                (blocked_apps (sweep env self u)) (attempts (sweep env self u)))
             (sweep env self u)))"
  shows "P (snd (run fuel env self s))"
proof -
  have blocking: "P (snd (block fuel env self u))" if "P u" for u
    using that plain tick by (rule block_invariant)
  show ?thesis
  proof (cases "start_time self")
    case None
    then show ?thesis
      using blocking [OF start] by (simp add: run_def)
  next
    case (Some st)
    show ?thesis
    proof (cases "st = []")
      case True
      then show ?thesis
        using Some blocking [OF start] by (simp add: run_def)
    next
      case False
      have w: "case wait_for_start env self st s of Inl s' \<Rightarrow> P s' | Inr s' \<Rightarrow> P s'"
        using start plain step by (rule wait_for_start_invariant)
      show ?thesis
      proof (cases "wait_for_start env self st s")
        case (Inl s')
        then show ?thesis
          using Some False w by (simp add: run_def)
      next
        case (Inr s')
        then show ?thesis
          using Some False w blocking [of s'] by (simp add: run_def)
      qed
    qed
  qed
qed

lemma plain_stats: "plain ev \<Longrightarrow> stats_of ev = None"
  by (cases ev) simp_all

lemma consistent_run: "consistent a s \<Longrightarrow> consistent a (snd (run fuel env self s))"
proof (rule run_invariant)
  fix u ev
  assume "consistent a u" "plain ev"
  then show "consistent a (record_event ev u)"
    by (simp add: consistent_def record_event_def plain_stats)
next
  fix u v
  assume u: "consistent a u"
  have "consistent a (record_event (UpdateStats (int_seconds v) 0 (attempts u)) u)"
    using u tallies_total [of a "updates (trace u)" 0 "int_seconds v"]
    by (simp add: consistent_def record_event_def total_snoc)
  then show "consistent a (sleep env 1 (record_event (UpdateStats (int_seconds v) 0 (attempts u)) u))"
    by (simp add: consistent_def sleep_def record_event_def)
next
  fix u e
  assume u: "consistent a u"
  let ?s1 = "sweep env self u"
  let ?s2 = "record_event (UpdateStats (int_seconds (e - clock ?s1)) (blocked_apps ?s1) (attempts ?s1)) ?s1"
  have "attempts ?s1 = running_total a (updates (trace u)) + blocked_apps ?s1"
    using u sweep_frame(2) [of env self u] by (simp add: consistent_def)
  then have "consistent a ?s2"
    using u sweep_frame(1,3) [of env self u]
    by (simp add: consistent_def record_event_def tallies_total total_snoc)
  then show "consistent a (sleep env (check_frequency self) ?s2)"
    by (simp add: consistent_def sleep_def record_event_def)
qed

lemma tallies_sorted:
  "tallies a us \<Longrightarrow> sorted (map cumulative_of us) \<and> (\<forall>u \<in> set us. a \<le> cumulative_of u)"
proof (induction us arbitrary: a)
  case Nil
  show ?case by simp
next
  case (Cons u us)
  have t: "tallies (cumulative_of u) us" "0 \<le> blocked_of u" "cumulative_of u = a + blocked_of u"
    using Cons.prems unfolding tallies.simps by blast+
  have "sorted (map cumulative_of us) \<and> (\<forall>v \<in> set us. cumulative_of u \<le> cumulative_of v)"
    using t(1) by (rule Cons.IH)
  then show ?case
    using t(2,3) by auto
qed

lemma tallies_nth:
  "tallies a us \<Longrightarrow> k < length us \<Longrightarrow> cumulative_of (us ! k) = a + (\<Sum>j\<le>k. blocked_of (us ! j))"
proof (induction us arbitrary: a k)
  case Nil
  then show ?case by simp
next
  case (Cons u us)
  have t: "tallies (cumulative_of u) us" "cumulative_of u = a + blocked_of u"
    using Cons.prems(1) unfolding tallies.simps by blast+
  show ?case
  proof (cases k)
    case 0
    then show ?thesis using t by simp
  next
    case (Suc n)
    then have "n < length us"
      using Cons.prems(2) by simp
    then have "cumulative_of (us ! n) = cumulative_of u + (\<Sum>j\<le>n. blocked_of (us ! j))"
      using t(1) Cons.IH by blast
    moreover have "(\<Sum>j\<le>Suc n. blocked_of ((u # us) ! j)) = blocked_of u + (\<Sum>j\<le>n. blocked_of (us ! j))"
      by (simp add: sum.atMost_Suc_shift del: sum.atMost_Suc)
    ultimately show ?thesis
      using Suc t(2) by simp
  qed
qed

section \<open>The cumulative counter\<close>

text \<open>
  C6: in every run, started from a fresh worker, the cumulative attempts carried by the
  successive \<^verbatim>\<open>update_stats\<close> emissions never decrease, and at every emission they
  equal the sum of the per-tick counts emitted so far, this one included.
\<close>

theorem cumulative_attempts_is_running_sum:
  assumes "us = updates (trace (snd (run fuel env self (initial t0))))"
  shows "sorted (map cumulative_of us) \<and>
         (\<forall>k < length us. cumulative_of (us ! k) = (\<Sum>j\<le>k. blocked_of (us ! j)))"
proof -
  have "consistent 0 (initial t0)"
    by (simp add: consistent_def initial_def running_total_def)
  then have "tallies 0 us"
    using consistent_run [of 0 "initial t0" fuel env self] assms by (simp add: consistent_def)
  then show ?thesis
    using tallies_sorted [of 0 us] tallies_nth [of 0 us] by simp
qed

text \<open>
  C6, witness: a calculator that is terminated at each of two ticks. The two emissions
  carry the counts 1 and 1 and the totals 1 and 2.
\<close>

theorem cumulative_attempts_is_running_sum_witness:
  "updates (trace (snd (run 2 (desk [cooperative 8 ''C:/calc.exe'' ''calc.exe'']) by_name (initial 0))))
     = [(60, 1, 1), (5, 1, 2)] \<and>
   cumulative_of ([(60, 1, 1), (5, 1, 2)] ! 1) = (\<Sum>j\<le>1. blocked_of ([(60, 1, 1), (5, 1, 2)] ! j))"
proof -
  have emitted:
    "updates (trace (snd (run 2 (desk [cooperative 8 ''C:/calc.exe'' ''calc.exe'']) by_name (initial 0))))
     = [(60, 1, 1), (5, 1, 2)]"
    by code_simp
  show ?thesis
    using cumulative_attempts_is_running_sum
      [of "[(60, 1, 1), (5, 1, 2)]" 2 "desk [cooperative 8 ''C:/calc.exe'' ''calc.exe'']" by_name 0]
      emitted
    by (simp add: cumulative_of_def blocked_of_def)
qed

section \<open>Evaluating sample runs\<close>

lemmas run_defs =
  run_def block_def wait_for_start_def sleep_def running_def int_seconds_def Let_def
  strptime_HM_def digit_value_def day_def session_def blocking_finished_def countdown.simps

lemmas sample_defs =
  desk_def by_name_def by_both_def init_def stubborn_def cooperative_def departing_def guarded_def
  initial_def ascii_lower_def interrupted_desk_def sluggish_desk_def at_midnight_def at_no_time_def


section \<open>The remaining time\<close>

lemma fold_check_process_events:
  "(t, ev) \<in> set (trace (fold (check_process env self) ps s)) \<Longrightarrow>
     (t, ev) \<in> set (trace s) \<or> (sweep_event ev \<and> clock s \<le> t)"
proof (induction ps arbitrary: s)
  case Nil
  then show ?case by simp
next
  case (Cons p ps)
  let ?s1 = "check_process env self p s"
  have s1: "?s1 = replay (footprint env self p) s"
    by (rule check_process_replay)
  have later: "clock s \<le> clock ?s1"
    using footprint_facts(3) [of env self p] by (simp add: s1 replay_def)
  have "(t, ev) \<in> set (trace ?s1) \<or> (sweep_event ev \<and> clock ?s1 \<le> t)"
    using Cons.prems Cons.IH [of ?s1] by simp
  moreover have "(t, ev) \<in> set (trace s) \<or> (sweep_event ev \<and> clock s \<le> t)"
    if "(t, ev) \<in> set (trace ?s1)"
    using that footprint_events [of _ ev env self p]
    by (auto simp: s1 replay_def set_later)
  ultimately show ?case
    using later by auto
qed

lemma sweep_events:
  "(t, ev) \<in> set (trace (sweep env self s)) \<Longrightarrow>
     (t, ev) \<in> set (trace s) \<or> (ev = ProcessIter \<and> t = clock s) \<or> (sweep_event ev \<and> clock s \<le> t)"
  using fold_check_process_events
    [of t ev env self "processes env (clock s)" "record_event ProcessIter (s\<lparr>blocked_apps := 0\<rparr>)"]
  by (auto simp: sweep_def record_event_def)

lemma int_seconds_nonneg: "0 \<le> us \<Longrightarrow> 0 \<le> int_seconds us"
  by (simp add: int_seconds_def)

lemma block_updates:
  assumes "(t, UpdateStats r b a) \<in> set (trace (snd (block fuel env self s)))"
  shows "(t, UpdateStats r b a) \<in> set (trace s) \<or>
         r = int_seconds (clock s + duration_minutes self * 60000000 - t)"
proof -
  let ?end = "clock s + duration_minutes self * 60000000"
  define P where "P = (\<lambda>u::state. \<forall>t r b a. (t, UpdateStats r b a) \<in> set (trace u) \<longrightarrow>
      (t, UpdateStats r b a) \<in> set (trace s) \<or> r = int_seconds (?end - t))"
  have "P (snd (block fuel env self s))"
  proof (rule block_invariant)
    show "P s" by (simp add: P_def)
  next
    fix u ev
    assume "P u" "plain ev"
    then show "P (record_event ev u)"
      by (cases ev) (auto simp: P_def record_event_def)
  next
    fix u
    assume u: "P u"
    let ?s1 = "sweep env self u"
    have "P ?s1"
      unfolding P_def
    proof (intro allI impI)
      fix t r b a
      assume "(t, UpdateStats r b a) \<in> set (trace ?s1)"
      then have "(t, UpdateStats r b a) \<in> set (trace u)"
        using sweep_events [of t "UpdateStats r b a" env self u] by simp
      then show "(t, UpdateStats r b a) \<in> set (trace s) \<or> r = int_seconds (?end - t)"
        using u by (simp add: P_def)
    qed
    then show "P (sleep env (check_frequency self)
          (record_event (UpdateStats (int_seconds (?end - clock ?s1)) (blocked_apps ?s1) (attempts ?s1)) ?s1))"
      by (auto simp: P_def sleep_def record_event_def)
  qed
  then show ?thesis
    using assms by (simp add: P_def)
qed

text \<open>
  C4, as the specification states it, fails: line 141 emits
  \<^verbatim>\<open>int((end_time - datetime.now()).total_seconds())\<close> with no lower bound. When a pass
  begun before the end runs past it (here a wait that times out after three seconds, begun
  at second 58 of a one-minute window), the emitted value is negative.
\<close>

theorem remaining_goes_negative:
  "updates (trace (snd (run 2 (desk [stubborn 7 ''C:/calc.exe'' ''calc.exe'']) by_name (initial 0))))
     = [(57, 0, 0), (- 1, 0, 0)]"
  by (simp add: run_defs sweep_defs sample_defs numeral_2_eq_2)

text \<open>
  C4, amended: every \<^verbatim>\<open>update_stats\<close> emitted during enforcement carries the whole
  seconds, rounded towards zero, of the end time minus the clock read after the pass. The
  value is not negative whenever that clock has not passed the end time, and it is negative
  once that clock is a second or more past it: there is no clamp at zero.
\<close>

theorem remaining_is_truncated_difference:
  assumes "(t, UpdateStats r b a) \<in> set (trace (snd (block fuel env self s)))"
    and "(t, UpdateStats r b a) \<notin> set (trace s)"
  shows "r = int_seconds (clock s + duration_minutes self * 60000000 - t) \<and>
         (t \<le> clock s + duration_minutes self * 60000000 \<longrightarrow> 0 \<le> r) \<and>
         (clock s + duration_minutes self * 60000000 + 1000000 \<le> t \<longrightarrow> r < 0)"
proof -
  have r: "r = int_seconds (clock s + duration_minutes self * 60000000 - t)"
    using block_updates [OF assms(1)] assms(2) by blast
  moreover have "0 \<le> r" if "t \<le> clock s + duration_minutes self * 60000000"
    using that r by (simp add: int_seconds_nonneg)
  moreover have "r < 0" if "clock s + duration_minutes self * 60000000 + 1000000 \<le> t"
    using that r by (simp add: int_seconds_def)
  ultimately show ?thesis by blast
qed

text \<open>C4, witness: the first emission of the run above, three seconds into the minute.\<close>

theorem remaining_is_truncated_difference_witness:
  "(3000000, UpdateStats 57 0 0)
     \<in> set (trace (snd (block 1 (desk [stubborn 7 ''C:/calc.exe'' ''calc.exe'']) by_name (initial 0)))) \<and>
   (3000000, UpdateStats 57 0 0) \<notin> set (trace (initial 0)) \<and>
   57 = int_seconds (clock (initial 0) + duration_minutes by_name * 60000000 - 3000000)"
proof -
  have emitted: "(3000000, UpdateStats 57 0 0)
     \<in> set (trace (snd (block 1 (desk [stubborn 7 ''C:/calc.exe'' ''calc.exe'']) by_name (initial 0))))"
    by (simp add: run_defs sweep_defs sample_defs)
  have fresh: "(3000000, UpdateStats 57 0 0) \<notin> set (trace (initial 0))"
    by (simp add: initial_def)
  show ?thesis
    using remaining_is_truncated_difference [OF emitted fresh] emitted fresh by simp
qed

section \<open>The countdown\<close>

text \<open>
  C9, as the specification states it, fails: the countdown sleeps \<^verbatim>\<open>time.sleep(1)\<close>
  whatever the poll interval (5 here, used by the blocking loop only), and it decrements
  \<^verbatim>\<open>wait_seconds\<close> by one instead of reading the clock: with sleeps that take a second
  and a half the second emission, half a second before the start, still says 1, and
  enforcement starts a second late.
\<close>

theorem countdown_ignores_poll_interval_and_clock:
  "check_frequency at_midnight = 5 \<and>
   trace (snd (run 1 (sluggish_desk []) at_midnight (initial 86398000000))) =
     [(86398000000, Info (ScheduledAt 86400000000)),
      (86398000000, Notify (ScheduledAt 86400000000)),
      (86398000000, UpdateStats 2 0 0), (86398000000, Sleep 1),
      (86399500000, UpdateStats 1 0 0), (86399500000, Sleep 1),
      (86401000000, Info (StartedBlocking 30)),
      (86401000000, Notify (StartedBlocking 30)),
      (86401000000, ProcessIter),
      (86401000000, UpdateStats 1800 0 0), (86401000000, Sleep 5)]"
  by (simp add: run_defs sweep_defs sample_defs)

text \<open>
  C9, amended: each iteration of the countdown emits the remaining seconds, sleeps one
  second, whatever the configured poll interval, and subtracts one second from the
  remaining time computed once before the loop; the clock is not read again. When nobody
  stops the worker the loop runs once per started second of the initial wait.
\<close>

theorem countdown_ticks_by_one_second:
  "\<exists>n new. trace (countdown env w s) = trace s @ new \<and>
     map snd new = countdown_events w (attempts s) n \<and>
     attempts (countdown env w s) = attempts s \<and>
     (stop_at env = None \<longrightarrow> n = nat ((w + 999999) div 1000000))"
proof (induction env w s rule: countdown.induct)
  case (1 env w s)
  show ?case
  proof (cases "w > 0 \<and> running env s")
    case False
    then have "countdown env w s = s"
      by (subst countdown.simps) auto
    moreover have "stop_at env = None \<longrightarrow> w \<le> 0"
      using False by (auto simp: running_def)
    ultimately show ?thesis
      by (intro exI [of _ 0] exI [of _ "[]"]) (auto simp: countdown_events_def)
  next
    case True
    let ?u = "UpdateStats (int_seconds w) 0 (attempts s)"
    let ?s' = "sleep env 1 (record_event ?u s)"
    have unfold: "countdown env w s = countdown env (w - 1000000) ?s'"
      using True by (subst countdown.simps) simp
    have s': "trace ?s' = trace s @ [(clock s, ?u), (clock s, Sleep 1)]" "attempts ?s' = attempts s"
      by (simp_all add: sleep_def record_event_def)
    have shift: "countdown_events w a (Suc n) = [UpdateStats (int_seconds w) 0 a, Sleep 1]
        @ countdown_events (w - 1000000) a n" for a n
      by (simp add: countdown_events_def map_upt_Suc algebra_simps del: upt_Suc)
    show ?thesis
      using "1.IH" [OF True]
    proof (elim exE conjE)
      fix n new
      assume ih: "trace (countdown env (w - 1000000) ?s') = trace ?s' @ new"
        "map snd new = countdown_events (w - 1000000) (attempts ?s') n"
        "attempts (countdown env (w - 1000000) ?s') = attempts ?s'"
        "stop_at env = None \<longrightarrow> n = nat ((w - 1000000 + 999999) div 1000000)"
      have count: "stop_at env = None \<longrightarrow> Suc n = nat ((w + 999999) div 1000000)"
        using ih(4) True by auto
      have "trace (countdown env w s) = trace s @ ([(clock s, ?u), (clock s, Sleep 1)] @ new)"
        using ih(1) s'(1) unfold by simp
      moreover have "map snd ([(clock s, ?u), (clock s, Sleep 1)] @ new)
          = countdown_events w (attempts s) (Suc n)"
        using ih(2) s'(2) by (simp add: shift)
      moreover have "attempts (countdown env w s) = attempts s"
        using ih(3) s'(2) unfold by simp
      ultimately show ?thesis
        using count
        by (intro exI [of _ "Suc n"] exI [of _ "[(clock s, ?u), (clock s, Sleep 1)] @ new"]) simp
    qed
  qed
qed

text \<open>C9, witness: a wait of two seconds on a machine where nobody stops the worker.\<close>

theorem countdown_ticks_by_one_second_witness:
  "stop_at (desk []) = None \<and>
   map snd (trace (countdown (desk []) 2000000 (initial 0))) = countdown_events 2000000 0 2 \<and>
   countdown_events 2000000 0 2 = [UpdateStats 2 0 0, Sleep 1, UpdateStats 1 0 0, Sleep 1]"
proof -
  have free: "stop_at (desk []) = None"
    by (simp add: desk_def)
  have listed: "countdown_events 2000000 0 2 = [UpdateStats 2 0 0, Sleep 1, UpdateStats 1 0 0, Sleep 1]"
    by (simp add: countdown_events_def int_seconds_def numeral_2_eq_2)
  show ?thesis
    using countdown_ticks_by_one_second [of "desk []" 2000000 "initial 0"]
  proof (elim exE conjE)
    fix n new
    assume c: "trace (countdown (desk []) 2000000 (initial 0)) = trace (initial 0) @ new"
      "map snd new = countdown_events 2000000 (attempts (initial 0)) n"
      "stop_at (desk []) = None \<longrightarrow> n = nat ((2000000 + 999999) div 1000000)"
    have "n = 2"
      using c(3) free by simp
    then have "map snd (trace (countdown (desk []) 2000000 (initial 0))) = countdown_events 2000000 0 2"
      using c(1,2) by (simp add: initial_def)
    then show ?thesis
      using free listed by simp
  qed
qed

text \<open>
  C7: a stop that arrives during the countdown ends the countdown, and no pass over the
  process table follows; but \<^verbatim>\<open>run\<close> then falls through to lines 104 to 107, which log
  and notify that blocking has started, one second after the stop. The worker below is
  scheduled for midnight, started two seconds before it and stopped half a second later.
\<close>

theorem stop_in_countdown_still_announces_start:
  "trace (snd (run 5 (interrupted_desk 86398500000 [cooperative 8 ''C:/calc.exe'' ''calc.exe''])
      at_midnight (initial 86398000000))) =
     [(86398000000, Info (ScheduledAt 86400000000)),
      (86398000000, Notify (ScheduledAt 86400000000)),
      (86398000000, UpdateStats 2 0 0), (86398000000, Sleep 1),
      (86399000000, Info (StartedBlocking 30)),
      (86399000000, Notify (StartedBlocking 30))]"
  by (simp add: run_defs sweep_defs sample_defs eval_nat_numeral)

section \<open>Stop requests\<close>

lemma passes_later: "passes (later t xs) = map ((+) t) (passes xs)"
proof (induction xs)
  case Nil
  show ?case by simp
next
  case (Cons x xs)
  obtain u ev where x: "x = (u, ev)" by (cases x)
  show ?case
    using Cons x by (cases ev) (simp_all add: later_def)
qed

lemma fold_check_process_passes:
  "passes (trace (fold (check_process env self) ps s)) = passes (trace s)"
proof (induction ps arbitrary: s)
  case Nil
  show ?case by simp
next
  case (Cons p ps)
  show ?case
    using Cons.IH [of "check_process env self p s"] footprint_facts(5) [of env self p]
    by (simp add: check_process_replay [of env self p s] replay_def passes_later)
qed

lemma sweep_passes: "passes (trace (sweep env self s)) = passes (trace s) @ [clock s]"
  by (simp add: sweep_def fold_check_process_passes record_event_def)

lemma plain_pass: "plain ev \<Longrightarrow> pass_of (t, ev) = None"
  by (cases ev) simp_all

lemma running_running_at: "running env s = running_at env (clock s)"
  by (simp add: running_def running_at_def)

lemma run_passes:
  "\<forall>t \<in> set (passes (trace (snd (run fuel env self s)))).
      t \<in> set (passes (trace s)) \<or> running_at env t"
proof (rule run_invariant)
  show "\<forall>t \<in> set (passes (trace s)). t \<in> set (passes (trace s)) \<or> running_at env t"
    by simp
next
  fix u :: state and ev :: event
  assume "\<forall>t \<in> set (passes (trace u)). t \<in> set (passes (trace s)) \<or> running_at env t" "plain ev"
  then show "\<forall>t \<in> set (passes (trace (record_event ev u))). t \<in> set (passes (trace s)) \<or> running_at env t"
    by (simp add: record_event_def plain_pass)
next
  fix u :: state and v :: int
  assume "\<forall>t \<in> set (passes (trace u)). t \<in> set (passes (trace s)) \<or> running_at env t"
  then show "\<forall>t \<in> set (passes (trace (sleep env 1 (record_event (UpdateStats (int_seconds v) 0 (attempts u)) u)))).
      t \<in> set (passes (trace s)) \<or> running_at env t"
    by (simp add: sleep_def record_event_def)
next
  fix u :: state and e :: int
  assume "\<forall>t \<in> set (passes (trace u)). t \<in> set (passes (trace s)) \<or> running_at env t"
    and "running env u"
  then show "\<forall>t \<in> set (passes (trace (sleep env (check_frequency self)
          (record_event
             (UpdateStats (int_seconds (e - clock (sweep env self u)))
                (blocked_apps (sweep env self u)) (attempts (sweep env self u)))
             (sweep env self u))))).
      t \<in> set (passes (trace s)) \<or> running_at env t"
    by (simp add: sleep_def record_event_def sweep_passes running_running_at)
qed

lemma countdown_while_running:
  "\<forall>(t, ev) \<in> set (trace (countdown env w s)). (t, ev) \<in> set (trace s) \<or> running_at env t"
proof (rule countdown_invariant)
  show "\<forall>(t, ev) \<in> set (trace s). (t, ev) \<in> set (trace s) \<or> running_at env t"
    by auto
next
  fix u :: state and v :: int
  assume "\<forall>(t, ev) \<in> set (trace u). (t, ev) \<in> set (trace s) \<or> running_at env t"
    and "running env u"
  then show "\<forall>(t, ev) \<in> set (trace (sleep env 1 (record_event (UpdateStats (int_seconds v) 0 (attempts u)) u))).
      (t, ev) \<in> set (trace s) \<or> running_at env t"
    by (auto simp: sleep_def record_event_def running_running_at)
qed

lemma stopped_loops:
  assumes "\<not> running env s"
  shows "countdown env w s = s" "blocking_loop fuel env self e s = (True, s)"
proof -
  show "countdown env w s = s"
    using assms by (subst countdown.simps) simp
  show "blocking_loop fuel env self e s = (True, s)"
    using assms by (cases fuel) simp_all
qed

text \<open>
  C10, as the specification states it, fails: the flag is read only at the top of each
  loop iteration. Here it is cleared one second into a pass that waits three seconds for a
  process; the pass finishes and its \<^verbatim>\<open>update_stats\<close> is emitted at second 3, after the
  flag went false.
\<close>

theorem update_emitted_after_stop:
  "stop_at (interrupted_desk 1000000 [stubborn 7 ''C:/calc.exe'' ''calc.exe'']) = Some 1000000 \<and>
   trace (snd (run 2 (interrupted_desk 1000000 [stubborn 7 ''C:/calc.exe'' ''calc.exe''])
          by_name (initial 0))) =
     [(0, Info (StartedBlocking 1)), (0, ProcessIter), (0, PsCall 7 Name), (0, PsCall 7 Terminate),
      (0, PsCall 7 Wait), (3000000, Warning (FailedToTerminate 7 TimeoutExpired)),
      (3000000, UpdateStats 57 0 0), (3000000, Sleep 55)]"
  by (simp add: run_defs sweep_defs sample_defs numeral_2_eq_2)

text \<open>
  C10, amended: once the running flag is false the worker begins no further pass over the
  process table and no further countdown iteration, and it leaves either loop at the next
  test of the flag: every pass of a run and every event of the countdown begins at an
  instant where the flag is still set, and from a state where it is cleared both loops
  return at once. An iteration of the blocking loop begun while the flag was set is carried
  through, whatever becomes of the flag meanwhile: the pass, its \<^verbatim>\<open>update_stats\<close> and the
  sleep.
\<close>

theorem no_new_iteration_once_stopped:
  "(\<forall>t \<in> set (passes (trace (snd (run fuel env self (initial t0))))). running_at env t) \<and>
   (\<forall>(t, ev) \<in> set (trace (countdown env w s)). (t, ev) \<in> set (trace s) \<or> running_at env t) \<and>
   (\<not> running env s \<longrightarrow> countdown env w s = s \<and> blocking_loop fuel env self e s = (True, s)) \<and>
   (clock s < e \<and> running env s \<longrightarrow>
      blocking_loop (Suc fuel) env self e s =
      blocking_loop fuel env self e
        (sleep env (check_frequency self)
          (record_event
             (UpdateStats (int_seconds (e - clock (sweep env self s)))
                (blocked_apps (sweep env self s)) (attempts (sweep env self s)))
             (sweep env self s))))"
proof -
  have "passes (trace (initial t0)) = []"
    by (simp add: initial_def)
  then have "\<forall>t \<in> set (passes (trace (snd (run fuel env self (initial t0))))). running_at env t"
    using run_passes [of fuel env self "initial t0"] by simp
  moreover have "clock s < e \<and> running env s \<longrightarrow>
      blocking_loop (Suc fuel) env self e s =
      blocking_loop fuel env self e
        (sleep env (check_frequency self)
          (record_event
             (UpdateStats (int_seconds (e - clock (sweep env self s)))
                (blocked_apps (sweep env self s)) (attempts (sweep env self s)))
             (sweep env self s)))"
    by (simp add: Let_def)
  ultimately show ?thesis
    using countdown_while_running [of env w s] stopped_loops(1) [of env s w]
      stopped_loops(2) [of env s fuel self e]
    by blast
qed

text \<open>
  C10, witness: the run above begins its only pass at instant 0, before the stop; started
  after the stop, both loops do nothing.
\<close>

theorem no_new_iteration_once_stopped_witness:
  "passes (trace (snd (run 2 (interrupted_desk 1000000 [stubborn 7 ''C:/calc.exe'' ''calc.exe''])
      by_name (initial 0)))) = [0] \<and>
   running_at (interrupted_desk 1000000 [stubborn 7 ''C:/calc.exe'' ''calc.exe'']) 0 \<and>
   \<not> running (interrupted_desk 1000000 [stubborn 7 ''C:/calc.exe'' ''calc.exe'']) (initial 1000000) \<and>
   countdown (interrupted_desk 1000000 [stubborn 7 ''C:/calc.exe'' ''calc.exe'']) 2000000
     (initial 1000000) = initial 1000000 \<and>
   blocking_loop 2 (interrupted_desk 1000000 [stubborn 7 ''C:/calc.exe'' ''calc.exe'']) by_name 60000000
     (initial 1000000) = (True, initial 1000000) \<and>
   clock (initial 0) < 60000000 \<and>
   running (interrupted_desk 1000000 [stubborn 7 ''C:/calc.exe'' ''calc.exe'']) (initial 0) \<and>
   updates (trace (snd (blocking_loop (Suc 2)
     (interrupted_desk 1000000 [stubborn 7 ''C:/calc.exe'' ''calc.exe'']) by_name 60000000 (initial 0))))
     = [(57, 0, 0)]"
proof -
  let ?env = "interrupted_desk 1000000 [stubborn 7 ''C:/calc.exe'' ''calc.exe'']"
  have began: "passes (trace (snd (run 2 ?env by_name (initial 0)))) = [0]"
    by (simp add: run_defs sweep_defs sample_defs numeral_2_eq_2)
  have stopped: "\<not> running ?env (initial 1000000)"
    by (simp add: running_def sample_defs)
  have going: "clock (initial 0) < 60000000 \<and> running ?env (initial 0)"
    by (simp add: running_def sample_defs)
  have carried: "updates (trace (snd (blocking_loop 2 ?env by_name 60000000
        (sleep ?env (check_frequency by_name)
          (record_event
             (UpdateStats (int_seconds (60000000 - clock (sweep ?env by_name (initial 0))))
                (blocked_apps (sweep ?env by_name (initial 0))) (attempts (sweep ?env by_name (initial 0))))
             (sweep ?env by_name (initial 0))))))) = [(57, 0, 0)]"
    by (simp add: run_defs sweep_defs sample_defs numeral_2_eq_2)
  have through: "blocking_loop (Suc 2) ?env by_name 60000000 (initial 0) =
      blocking_loop 2 ?env by_name 60000000
        (sleep ?env (check_frequency by_name)
          (record_event
             (UpdateStats (int_seconds (60000000 - clock (sweep ?env by_name (initial 0))))
                (blocked_apps (sweep ?env by_name (initial 0))) (attempts (sweep ?env by_name (initial 0))))
             (sweep ?env by_name (initial 0))))"
    using going
      no_new_iteration_once_stopped
        [where fuel = 2 and env = ?env and self = by_name and ?t0.0 = 0 and w = 2000000
           and s = "initial 0" and e = 60000000]
    by blast
  have "countdown ?env 2000000 (initial 1000000) = initial 1000000 \<and>
      blocking_loop 2 ?env by_name 60000000 (initial 1000000) = (True, initial 1000000)"
    using stopped
      no_new_iteration_once_stopped
        [where fuel = 2 and env = ?env and self = by_name and ?t0.0 = 0 and w = 2000000
           and s = "initial 1000000" and e = 60000000]
    by blast
  moreover have "running_at ?env 0"
    by (simp add: running_at_def sample_defs)
  ultimately show ?thesis
    using began stopped going carried through by simp
qed

section \<open>A malformed start time\<close>

text \<open>
  C8, as the specification states it, fails in its last part: the worker has no terminal
  state to report. After the \<^verbatim>\<open>return\<close> of line 102 Qt emits the same \<^verbatim>\<open>finished\<close>
  signal as after a completed run, and the consumer's slot records the failed run, like
  the completed one, as a completed session.
\<close>

theorem failed_run_recorded_as_completed:
  "map snd (trace (snd (session 1 (desk []) at_no_time (initial 0))))
     = [Error IncorrectTimeFormat, Info SessionCompleted] \<and>
   map snd (trace (snd (session 1 (desk []) (by_name\<lparr>check_frequency := 60\<rparr>) (initial 0))))
     = [Info (StartedBlocking 1), ProcessIter, UpdateStats 60 0 0, Sleep 60, Info FinishedBlocking,
        Info SessionCompleted]"
  by (simp add: run_defs sweep_defs sample_defs)

text \<open>
  C8, amended: when the configured start time is malformed, \<^verbatim>\<open>run\<close> returns at once:
  it logs the error (and notifies, when notifications are on) and does nothing else, so no
  pass over the process table begins, no termination is requested and no
  \<^verbatim>\<open>update_stats\<close> is emitted. The failure is told apart from a completed run by that
  log entry only; the consumer's slot then runs as after any other return.
\<close>

theorem malformed_start_time_ends_run:
  assumes "start_time self = Some st" and "st \<noteq> []" and "strptime_HM st = None"
  shows "run fuel env self s =
           (True, if notify self
                  then send_notification IncorrectTimeFormat (record_event (Error IncorrectTimeFormat) s)
                  else record_event (Error IncorrectTimeFormat) s) \<and>
         passes (trace (snd (run fuel env self s))) = passes (trace s) \<and>
         terminated (trace (snd (run fuel env self s))) = terminated (trace s) \<and>
         updates (trace (snd (run fuel env self s))) = updates (trace s) \<and>
         session fuel env self s = (True, blocking_finished self (snd (run fuel env self s)))"
  using assms
  by (simp add: run_def wait_for_start_def session_def record_event_def send_notification_def)

text \<open>C8, witness: a start time of 25:00, with a listed calculator running.\<close>

theorem malformed_start_time_ends_run_witness:
  "start_time at_no_time = Some ''25:00'' \<and> strptime_HM ''25:00'' = None \<and>
   run 1 (desk [cooperative 8 ''C:/calc.exe'' ''calc.exe'']) at_no_time (initial 0) =
     (True, record_event (Error IncorrectTimeFormat) (initial 0)) \<and>
   terminated (trace (snd (run 1 (desk [cooperative 8 ''C:/calc.exe'' ''calc.exe'']) at_no_time (initial 0))))
     = []"
proof -
  have given: "start_time at_no_time = Some ''25:00''" "''25:00'' \<noteq> []" "strptime_HM ''25:00'' = None"
    "notify at_no_time = False"
    by (simp_all add: at_no_time_def init_def strptime_HM_def digit_value_def)
  show ?thesis
    using malformed_start_time_ends_run [OF given(1,2,3), of 1
        "desk [cooperative 8 ''C:/calc.exe'' ''calc.exe'']" "initial 0"] given
    by (simp add: initial_def record_event_def)
qed

section \<open>Which processes are asked to terminate\<close>

lemma unlisted_untouched:
  assumes "\<not> listed env self proc"
  shows "terminated (trace (check_process env self proc s)) = terminated (trace s) \<and>
         blocked_apps (check_process env self proc s) = blocked_apps s \<and>
         attempts (check_process env self proc s) = attempts s"
proof -
  define I where "I = (\<lambda>u::state. terminated (trace u) = terminated (trace s) \<and>
     blocked_apps u = blocked_apps s \<and> attempts u = attempts s)"
  have call: "preserves I (ps_call proc c)" if "c \<noteq> Terminate" for c
    using that by (intro preserves_ps_call) (cases c; simp add: I_def record_event_def)
  note calls = call [of Exe, simplified] call [of Name, simplified] call [of Wait, simplified]
  have kill: "preserves I (ps_call proc Terminate)" if "listed env self proc"
    using that assms by simp
  have cb: "preserves I (perform count_block)" if "listed env self proc"
    using that assms by simp
  have ev: "preserves I (perform (record_event (Info m)))" for m
    by (rule preserves_perform) (simp add: I_def record_event_def)
  have nt: "preserves I (perform (send_notification m))" for m
    by (rule preserves_perform) (simp add: I_def record_event_def send_notification_def)
  have "preserves I (check_by_path env self proc)"
    unfolding check_by_path_def
    by (intro preserves_intros calls ev nt cb kill) (auto simp: listed_def)
  moreover have "preserves I (check_by_name env self proc)"
    unfolding check_by_name_def
    by (intro preserves_intros calls ev nt cb kill) (auto simp: listed_def)
  ultimately have "I (check_process env self proc s)"
    by (rule preserves_check_process) (simp_all add: I_def record_event_def)
  then show ?thesis
    by (simp add: I_def)
qed

lemma fold_check_process_requests:
  "terminated (trace (fold (check_process env self) ps s)) =
     terminated (trace s) @ concat (map (\<lambda>p. terminated (trace (footprint env self p))) ps)"
proof (induction ps arbitrary: s)
  case Nil
  show ?case by simp
next
  case (Cons p ps)
  show ?case
    using Cons.IH [of "check_process env self p s"]
    by (simp add: check_process_replay [of env self p s] replay_def)
qed

lemma sweep_requests:
  "terminated (trace (sweep env self s)) = terminated (trace s) @ requests env self (clock s)"
  by (simp add: sweep_def fold_check_process_requests record_event_def requests_def)

lemma plain_termination: "plain ev \<Longrightarrow> termination_of ev = None"
  by (cases ev) simp_all

lemma run_requests:
  "terminated (trace s) = concat (map (requests env self) (passes (trace s))) \<Longrightarrow>
   terminated (trace (snd (run fuel env self s))) =
     concat (map (requests env self) (passes (trace (snd (run fuel env self s)))))"
proof (rule run_invariant
    [where P = "\<lambda>u. terminated (trace u) = concat (map (requests env self) (passes (trace u)))"])
  fix u :: state and ev :: event
  assume "terminated (trace u) = concat (map (requests env self) (passes (trace u)))" "plain ev"
  then show "terminated (trace (record_event ev u)) =
      concat (map (requests env self) (passes (trace (record_event ev u))))"
    by (simp add: record_event_def plain_termination plain_pass)
next
  fix u :: state and v :: int
  assume "terminated (trace u) = concat (map (requests env self) (passes (trace u)))"
  then show "terminated (trace (sleep env 1 (record_event (UpdateStats (int_seconds v) 0 (attempts u)) u))) =
      concat (map (requests env self)
        (passes (trace (sleep env 1 (record_event (UpdateStats (int_seconds v) 0 (attempts u)) u)))))"
    by (simp add: sleep_def record_event_def)
next
  fix u :: state and e :: int
  let ?s1 = "sweep env self u"
  let ?s3 = "sleep env (check_frequency self)
      (record_event (UpdateStats (int_seconds (e - clock ?s1)) (blocked_apps ?s1) (attempts ?s1)) ?s1)"
  assume "terminated (trace u) = concat (map (requests env self) (passes (trace u)))"
  then show "terminated (trace ?s3) = concat (map (requests env self) (passes (trace ?s3)))"
    by (simp add: sleep_def record_event_def sweep_requests sweep_passes)
qed

text \<open>
  C5: a process whose absolute executable path is not in the path list and whose
  lower-cased name is not in the name list is never asked to terminate. Handling the handle
  of such a process, from any state and so at any tick of any run, adds no termination
  request; and the requests of a whole run are exactly those made while handling the
  handles of its passes, pass by pass and handle by handle, so that none is made on
  anything else.
\<close>

theorem unlisted_never_terminated:
  "(\<not> listed env self proc \<longrightarrow>
      terminated (trace (check_process env self proc s)) = terminated (trace s) \<and>
      terminated (trace (footprint env self proc)) = []) \<and>
   terminated (trace (snd (run fuel env self (initial t0)))) =
     concat (map (requests env self) (passes (trace (snd (run fuel env self (initial t0))))))"
proof -
  have "terminated (trace (footprint env self proc)) = []" if "\<not> listed env self proc"
    using unlisted_untouched [OF that, of "blank []"] by (simp add: footprint_def blank_def)
  moreover have "terminated (trace (initial t0)) =
      concat (map (requests env self) (passes (trace (initial t0))))"
    by (simp add: initial_def)
  ultimately show ?thesis
    using unlisted_untouched [of env self proc s] run_requests [of "initial t0" env self fuel]
    by blast
qed

text \<open>
  C5, witness: a calculator whose name is listed is terminated at the first tick; at the
  second tick its process id belongs to a text editor, which is left alone.
\<close>

theorem unlisted_never_terminated_witness:
  "\<not> listed reusing_desk by_name (cooperative 8 ''C:/notepad.exe'' ''notepad.exe'') \<and>
   terminated (trace (check_process reusing_desk by_name
      (cooperative 8 ''C:/notepad.exe'' ''notepad.exe'') (initial 55000000))) = [] \<and>
   terminated (trace (snd (run 2 reusing_desk by_name (initial 0)))) = [8] \<and>
   passes (trace (snd (run 2 reusing_desk by_name (initial 0)))) = [0, 55000000]"
proof -
  let ?editor = "cooperative 8 ''C:/notepad.exe'' ''notepad.exe''"
  have unlisted: "\<not> listed reusing_desk by_name ?editor"
    by (auto simp: listed_def cooperative_def by_name_def init_def desk_def reusing_desk_def
        ascii_lower_def)
  have asked: "terminated (trace (snd (run 2 reusing_desk by_name (initial 0)))) = [8]"
    "passes (trace (snd (run 2 reusing_desk by_name (initial 0)))) = [0, 55000000]"
    by (simp_all add: run_defs sweep_defs sample_defs reusing_desk_def numeral_2_eq_2)
  show ?thesis
    using unlisted_never_terminated [of reusing_desk by_name ?editor "initial 55000000" 2 0]
      unlisted asked
    by (simp add: initial_def)
qed

section \<open>Counted once, never twice\<close>











end
